theory Spec2Isabelle
  imports Complex_Main "HOL-Library.AList"
begin

section \<open>Python strings and values\<close>

text \<open>
  The two tools under \<^verbatim>\<open>tools/locbench_sweagent\<close> are modelled:
  \<^verbatim>\<open>parse_trajectories.py\<close> (payload extractor, result normaliser, trajectory converter) and
  \<^verbatim>\<open>prepare_instances.py\<close> (instance builder).

  A Python \<^verbatim>\<open>str\<close> is a \<^typ>\<open>string\<close>; a \<^typ>\<open>char\<close> stands for the code point of the same
  number, so the texts covered are those of code points below 256.
  \<^verbatim>\<open>str.strip()\<close> and the regular expression class \<^verbatim>\<open>\s\<close> use the same whitespace test
  (\<^verbatim>\<open>str.isspace\<close>); below 256 it holds for the twelve characters of \<open>is_space\<close>.
\<close>

definition is_space :: "char \<Rightarrow> bool" where
  "is_space c = (c \<in> {CHR 0x09, CHR 0x0A, CHR 0x0B, CHR 0x0C, CHR 0x0D,
                       CHR 0x1C, CHR 0x1D, CHR 0x1E, CHR 0x1F, CHR 0x20, CHR 0x85, CHR 0xA0})"

text \<open>\<^verbatim>\<open>s.strip()\<close>: whitespace removed at both ends.\<close>

definition strip :: "string \<Rightarrow> string" where
  "strip s = rev (dropWhile is_space (rev (dropWhile is_space s)))"

text \<open>
  The values \<^verbatim>\<open>json.loads\<close> builds. A float is kept as the decimal it was read from (or one
  of the three constants \<^verbatim>\<open>Infinity\<close>, \<^verbatim>\<open>-Infinity\<close>, \<^verbatim>\<open>NaN\<close>); the program only ever asks
  whether a float is zero. A \<^verbatim>\<open>dict\<close> is an association list in insertion order.
\<close>

datatype pyfloat = Decimal rat | PosInfinity | NegInfinity | NaN

datatype json =
    JNull
  | JBool bool
  | JInt int
  | JFloat pyfloat
  | JStr string
  | JList "json list"
  | JDict "(string \<times> json) list"

type_synonym pydict = "(string \<times> json) list"

text \<open>
  \<^verbatim>\<open>bool(x)\<close> for a float read from a decimal: the nearest double is zero exactly when the
  decimal is at most \<open>2 ^ -1075\<close> in absolute value (round half to even).
\<close>

fun float_truthy :: "pyfloat \<Rightarrow> bool" where
  "float_truthy (Decimal d) = (\<bar>d\<bar> > 1 / 2 ^ 1075)"
| "float_truthy PosInfinity = True"
| "float_truthy NegInfinity = True"
| "float_truthy NaN = True"

text \<open>Python truthiness, as tested by \<^verbatim>\<open>if not value\<close>.\<close>

fun truthy :: "json \<Rightarrow> bool" where
  "truthy JNull = False"
| "truthy (JBool b) = b"
| "truthy (JInt i) = (i \<noteq> 0)"
| "truthy (JFloat f) = float_truthy f"
| "truthy (JStr s) = (s \<noteq> [])"
| "truthy (JList xs) = (xs \<noteq> [])"
| "truthy (JDict d) = (d \<noteq> [])"

text \<open>\<^verbatim>\<open>d.get(key)\<close>: the value stored under the key, \<^verbatim>\<open>None\<close> when there is none.\<close>

definition dict_get :: "pydict \<Rightarrow> string \<Rightarrow> json" where
  "dict_get d k = (case map_of d k of None \<Rightarrow> JNull | Some v \<Rightarrow> v)"

section \<open>Result normaliser\<close>

text \<open>
  The loop of \<^verbatim>\<open>normalize_list\<close>, with its two variables \<^verbatim>\<open>seen\<close> and \<^verbatim>\<open>result\<close>:
  \<^verbatim>\<open>
    for item in items:
        if not isinstance(item, str): continue
        cleaned = item.strip()
        if not cleaned or cleaned in seen: continue
        seen.add(cleaned)
        result.append(cleaned)
  \<close>
\<close>

fun normalize_items :: "json list \<Rightarrow> string set \<Rightarrow> string list \<Rightarrow> string list" where
  "normalize_items [] seen result = result"
| "normalize_items (JStr item # items) seen result =
     (let cleaned = strip item in
      if cleaned = [] \<or> cleaned \<in> seen then normalize_items items seen result
      else normalize_items items (insert cleaned seen) (result @ [cleaned]))"
| "normalize_items (_ # items) seen result = normalize_items items seen result"

definition normalize_list :: "json \<Rightarrow> string list" where
  "normalize_list v =
     (if \<not> truthy v then []
      else let items = (case v of JList xs \<Rightarrow> xs | _ \<Rightarrow> [v])
           in normalize_items items {} [])"

text \<open>A Python list of strings, as a value.\<close>

definition str_list :: "string list \<Rightarrow> json" where
  "str_list xs = JList (map JStr xs)"

text \<open>
  \<^verbatim>\<open>entities_to_modules\<close>. \<^verbatim>\<open>entity.split(":", 1)\<close> cuts at the first colon and
  \<^verbatim>\<open>name.split(".")[0]\<close> is the part of the name before its first dot.
\<close>

definition before_colon :: "string \<Rightarrow> string" where
  "before_colon entity = takeWhile (\<lambda>c. c \<noteq> CHR '':'') entity"

definition after_colon :: "string \<Rightarrow> string" where
  "after_colon entity = drop 1 (dropWhile (\<lambda>c. c \<noteq> CHR '':'') entity)"

definition first_segment :: "string \<Rightarrow> string" where
  "first_segment name = takeWhile (\<lambda>c. c \<noteq> CHR ''.'') name"

fun modules_loop :: "string list \<Rightarrow> string set \<Rightarrow> string list \<Rightarrow> string list" where
  "modules_loop [] seen modules = modules"
| "modules_loop (entity # rest) seen modules =
     (if CHR '':'' \<notin> set entity then modules_loop rest seen modules
      else let file_path = before_colon entity;
               name = after_colon entity;
               module_name = first_segment name;
               module_id = (if module_name \<noteq> [] then file_path @ '':'' @ module_name
                            else file_path)
           in if module_id \<in> seen then modules_loop rest seen modules
              else modules_loop rest (insert module_id seen) (modules @ [module_id]))"

definition entities_to_modules :: "string list \<Rightarrow> string list" where
  "entities_to_modules found_entities = modules_loop found_entities {} []"

section \<open>Payload extractor\<close>

text \<open>
  \<^verbatim>\<open>json.loads\<close> belongs to Python's library, not to this repository: the extractor takes
  the decoder as a parameter \<open>loads\<close>, where \<open>loads s = None\<close> stands for
  \<^verbatim>\<open>json.JSONDecodeError\<close>, the one exception the decoder signals on a string and the one
  \<^verbatim>\<open>_try_load_json\<close> catches. (Exhausted resources, such as the interpreter's recursion
  limit, are not part of the model.) A decoder for the examples is given in the next
  section.
\<close>

type_synonym decoder = "string \<Rightarrow> json option"

definition try_load_json :: "decoder \<Rightarrow> string \<Rightarrow> pydict option" where
  "try_load_json loads candidate =
     (case loads candidate of
        None \<Rightarrow> None
      | Some payload \<Rightarrow> (case payload of JDict d \<Rightarrow> Some d | _ \<Rightarrow> None))"

text \<open>
  \<^verbatim>\<open>JSON_CODE_BLOCK_RE\<close> is \<^verbatim>\<open>```(?:json)?\s*(.*?)```\<close> with the flags \<^verbatim>\<open>IGNORECASE\<close> and
  \<^verbatim>\<open>DOTALL\<close>. At a given start the engine reads three backquotes, then the letters
  \<^verbatim>\<open>json\<close> in either case when they are there, then all the whitespace that follows, and
  then the shortest text up to the next three backquotes, which is group 1. The
  alternatives the engine would fall back on (not reading \<^verbatim>\<open>json\<close>, giving back
  whitespace) start the search for the closing backquotes earlier, over letters and
  whitespace only, so they match nothing the first choice does not
  (lemma \<open>match_code_block_complete\<close>: an opening fence followed anywhere by a closing
  one is matched).
\<close>

fun until_fence :: "string \<Rightarrow> (string \<times> string) option" where
  "until_fence [] = None"
| "until_fence (c # cs) =
     (if take 3 (c # cs) = ''```'' then Some ([], drop 3 (c # cs))
      else (case until_fence cs of
              None \<Rightarrow> None
            | Some (inner, rest) \<Rightarrow> Some (c # inner, rest)))"

definition json_tag :: "string \<Rightarrow> bool" where
  "json_tag s =
     (case take 4 s of
        [c1, c2, c3, c4] \<Rightarrow> c1 \<in> {CHR ''j'', CHR ''J''} \<and> c2 \<in> {CHR ''s'', CHR ''S''}
                           \<and> c3 \<in> {CHR ''o'', CHR ''O''} \<and> c4 \<in> {CHR ''n'', CHR ''N''}
      | _ \<Rightarrow> False)"

text \<open>A match at the head of \<open>s\<close>: group 1 and the text after the match.\<close>

definition match_code_block :: "string \<Rightarrow> (string \<times> string) option" where
  "match_code_block s =
     (if take 3 s = ''```'' then
        let s1 = drop 3 s;
            s2 = (if json_tag s1 then drop 4 s1 else s1);
            s3 = dropWhile is_space s2
        in until_fence s3
      else None)"

lemma until_fence_Some:
  "until_fence s = Some (inner, rest) \<Longrightarrow> s = inner @ ''```'' @ rest"
proof (induction s arbitrary: inner)
  case Nil
  then show ?case by simp
next
  case (Cons c cs)
  show ?case
  proof (cases "take 3 (c # cs) = ''```''")
    case True
    with Cons.prems have "inner = []" "rest = drop 3 (c # cs)"
      by simp_all
    with True show ?thesis
      by (metis append_Nil append_take_drop_id)
  next
    case False
    with Cons.prems obtain g where g: "until_fence cs = Some (g, rest)" "inner = c # g"
      by (auto split: option.splits)
    from Cons.IH [OF g(1)] g(2) show ?thesis
      by simp
  qed
qed

lemma match_code_block_shorter:
  "match_code_block s = Some (inner, rest) \<Longrightarrow> length rest < length s"
proof -
  assume m: "match_code_block s = Some (inner, rest)"
  then have t: "take 3 s = ''```''"
    by (auto simp: match_code_block_def split: if_splits)
  define s2 where "s2 = (if json_tag (drop 3 s) then drop 4 (drop 3 s) else drop 3 s)"
  from m t have "until_fence (dropWhile is_space s2) = Some (inner, rest)"
    by (simp add: match_code_block_def s2_def Let_def)
  then have "dropWhile is_space s2 = inner @ ''```'' @ rest"
    by (rule until_fence_Some)
  then have "length rest < length (dropWhile is_space s2)"
    by simp
  also have "\<dots> \<le> length s2"
    by (rule length_dropWhile_le)
  also have "\<dots> \<le> length s"
    by (simp add: s2_def)
  finally show ?thesis .
qed

text \<open>
  \<^verbatim>\<open>[m.group(1) for m in JSON_CODE_BLOCK_RE.finditer(text)]\<close>: the matches from left to
  right, each search resuming where the previous match ended.
\<close>

function code_block_groups :: "string \<Rightarrow> string list" where
  "code_block_groups [] = []"
| "code_block_groups (c # cs) =
     (case match_code_block (c # cs) of
        Some (inner, rest) \<Rightarrow> inner # code_block_groups rest
      | None \<Rightarrow> code_block_groups cs)"
  by pat_completeness auto
termination
  by (relation "measure length") (auto dest: match_code_block_shorter)

text \<open>
  \<^verbatim>\<open>_iter_json_substrings\<close>. The inner loop runs \<open>idx\<close> from \<open>start\<close> with the depth
  counter and stops at the first closing brace that brings the depth to zero;
  \<open>scan_depth\<close> is given the text from \<open>idx\<close> on and returns that \<open>idx\<close>.
\<close>

fun scan_depth :: "string \<Rightarrow> nat \<Rightarrow> int \<Rightarrow> nat option" where
  "scan_depth [] idx depth = None"
| "scan_depth (char # cs) idx depth =
     (if char = CHR ''{'' then scan_depth cs (idx + 1) (depth + 1)
      else if char = CHR ''}'' then
        (if depth - 1 = 0 then Some idx else scan_depth cs (idx + 1) (depth - 1))
      else scan_depth cs (idx + 1) depth)"

text \<open>The slice \<^verbatim>\<open>text[start : stop]\<close>.\<close>

definition slice :: "string \<Rightarrow> nat \<Rightarrow> nat \<Rightarrow> string" where
  "slice text start stop = take (stop - start) (drop start text)"

definition iter_json_substrings :: "string \<Rightarrow> string list" where
  "iter_json_substrings text =
     (let starts = filter (\<lambda>i. text ! i = CHR ''{'') [0..<length text]
      in concat (map (\<lambda>start. case scan_depth (drop start text) start 0 of
                                  Some idx \<Rightarrow> [slice text start (idx + 1)]
                                | None \<Rightarrow> []) starts))"

text \<open>
  A loop \<^verbatim>\<open>for candidate in ...: payload = _try_load_json(candidate); if payload is not
  None: return payload, candidate\<close>; \<open>None\<close> when the loop ends without returning.
\<close>

fun first_payload :: "decoder \<Rightarrow> string list \<Rightarrow> (pydict \<times> string) option" where
  "first_payload loads [] = None"
| "first_payload loads (candidate # rest) =
     (case try_load_json loads candidate of
        Some payload \<Rightarrow> Some (payload, candidate)
      | None \<Rightarrow> first_payload loads rest)"

definition fenced_candidates :: "string \<Rightarrow> string list" where
  "fenced_candidates text = filter (\<lambda>candidate. candidate \<noteq> []) (map strip (code_block_groups text))"

definition extract_json_payload :: "decoder \<Rightarrow> string \<Rightarrow> pydict option \<times> string option" where
  "extract_json_payload loads text =
     (if text = [] then (None, None)
      else
        let candidates = fenced_candidates text;
            candidates = (if candidates = [] then [strip text] else candidates)
        in case first_payload loads candidates of
             Some (payload, candidate) \<Rightarrow> (Some payload, Some candidate)
           | None \<Rightarrow>
               (case first_payload loads (iter_json_substrings text) of
                  Some (payload, candidate) \<Rightarrow> (Some payload, Some candidate)
                | None \<Rightarrow> (None, None)))"

section \<open>A JSON decoder\<close>

text \<open>
  A decoder for the language \<^verbatim>\<open>json.loads\<close> accepts with its default arguments, on which
  the examples are evaluated: the JSON grammar, with \<^verbatim>\<open>NaN\<close>, \<^verbatim>\<open>Infinity\<close> and
  \<^verbatim>\<open>-Infinity\<close>, the four whitespace characters of JSON between tokens, no control
  character inside a string, and the last value kept for a repeated key.
  A \<^verbatim>\<open>\uXXXX\<close> escape is decoded below code point 256 only (the range of \<^typ>\<open>char\<close>); the
  theorems on the extractor hold for every decoder and do not depend on this one.
\<close>

datatype token = LBrace | RBrace | LBracket | RBracket | Colon | Comma | Scalar json

definition is_digit :: "char \<Rightarrow> bool" where
  "is_digit c = (48 \<le> (of_char c :: nat) \<and> (of_char c :: nat) \<le> 57)"

definition hex_val :: "char \<Rightarrow> nat option" where
  "hex_val c =
     (let n = (of_char c :: nat) in
      if 48 \<le> n \<and> n \<le> 57 then Some (n - 48)
      else if 97 \<le> n \<and> n \<le> 102 then Some (n - 87)
      else if 65 \<le> n \<and> n \<le> 70 then Some (n - 55)
      else None)"

definition decode_hex4 :: "string \<Rightarrow> nat option" where
  "decode_hex4 s =
     (case map hex_val s of
        [Some a, Some b, Some c, Some d] \<Rightarrow> Some (((a * 16 + b) * 16 + c) * 16 + d)
      | _ \<Rightarrow> None)"

definition unescape :: "char \<Rightarrow> char option" where
  "unescape e =
     (if e = CHR 0x22 then Some (CHR 0x22)
      else if e = CHR 0x5C then Some (CHR 0x5C)
      else if e = CHR ''/'' then Some (CHR ''/'')
      else if e = CHR ''b'' then Some (CHR 0x08)
      else if e = CHR ''f'' then Some (CHR 0x0C)
      else if e = CHR ''n'' then Some (CHR 0x0A)
      else if e = CHR ''r'' then Some (CHR 0x0D)
      else if e = CHR ''t'' then Some (CHR 0x09)
      else None)"

text \<open>The text after an opening double quote: the decoded string and what follows the closing quote.\<close>

fun scan_string :: "string \<Rightarrow> (string \<times> string) option" where
  "scan_string [] = None"
| "scan_string (c # cs) =
     (if c = CHR 0x22 then Some ([], cs)
      else if c = CHR 0x5C then
        (case cs of
           [] \<Rightarrow> None
         | e # cs' \<Rightarrow>
             if e = CHR ''u'' then
               (case decode_hex4 (take 4 cs') of
                  None \<Rightarrow> None
                | Some n \<Rightarrow>
                    if n < 256 then
                      (case scan_string (drop 4 cs') of
                         None \<Rightarrow> None
                       | Some (s, rest) \<Rightarrow> Some (char_of n # s, rest))
                    else None)
             else
               (case unescape e of
                  None \<Rightarrow> None
                | Some ch \<Rightarrow>
                    (case scan_string cs' of
                       None \<Rightarrow> None
                     | Some (s, rest) \<Rightarrow> Some (ch # s, rest))))
      else if (of_char c :: nat) < 32 then None
      else (case scan_string cs of
              None \<Rightarrow> None
            | Some (s, rest) \<Rightarrow> Some (c # s, rest)))"

text \<open>
  Numbers: \<^verbatim>\<open>(-?(?:0|[1-9]\d*))(\.\d+)?([eE][-+]?\d+)?\<close>; an \<^verbatim>\<open>int\<close> when there is neither
  fraction nor exponent, a \<^verbatim>\<open>float\<close> otherwise.
\<close>

definition digits_val :: "string \<Rightarrow> nat" where
  "digits_val ds = foldl (\<lambda>n c. 10 * n + (of_char c - 48)) 0 ds"

definition scale10 :: "rat \<Rightarrow> int \<Rightarrow> rat" where
  "scale10 m e = (if 0 \<le> e then m * 10 ^ nat e else m / 10 ^ nat (- e))"

definition scan_fraction :: "string \<Rightarrow> string \<times> string" where
  "scan_fraction s =
     (case s of
        c # cs \<Rightarrow>
          if c = CHR ''.'' \<and> takeWhile is_digit cs \<noteq> []
          then (takeWhile is_digit cs, dropWhile is_digit cs) else ([], s)
      | [] \<Rightarrow> ([], s))"

definition scan_exponent :: "string \<Rightarrow> int option \<times> string" where
  "scan_exponent s =
     (case s of
        c # cs \<Rightarrow>
          if c = CHR ''e'' \<or> c = CHR ''E'' then
            (let (sign, cs') =
                   (case cs of
                      x # xs \<Rightarrow> if x = CHR ''+'' then (1, xs)
                                else if x = CHR ''-'' then (- 1, xs) else (1, cs)
                    | [] \<Rightarrow> (1, cs))
             in if takeWhile is_digit cs' = [] then (None, s)
                else (Some (sign * int (digits_val (takeWhile is_digit cs'))),
                      dropWhile is_digit cs'))
          else (None, s)
      | [] \<Rightarrow> (None, s))"

definition scan_number :: "string \<Rightarrow> (json \<times> string) option" where
  "scan_number s =
     (let (negative, s1) = (case s of
                              c # cs \<Rightarrow> if c = CHR ''-'' then (True, cs) else (False, s)
                            | [] \<Rightarrow> (False, s));
          ds = takeWhile is_digit s1
      in if ds = [] then None
         else
           let int_digits = (if hd ds = CHR ''0'' then [CHR ''0''] else ds);
               s2 = drop (length int_digits) s1;
               (fraction, s3) = scan_fraction s2;
               (exponent, s4) = scan_exponent s3;
               sign_factor = (if negative then - 1 else 1)
           in if fraction = [] \<and> exponent = None
              then Some (JInt (sign_factor * int (digits_val int_digits)), s4)
              else
                let mantissa = of_nat (digits_val int_digits)
                               + of_nat (digits_val fraction) / 10 ^ length fraction
                in Some (JFloat (Decimal (scale10 (of_int sign_factor * mantissa)
                                            (case exponent of None \<Rightarrow> 0 | Some e \<Rightarrow> e))), s4))"

lemma scan_string_shorter:
  "scan_string s = Some (v, rest) \<Longrightarrow> length rest < length s"
proof (induction s arbitrary: v rule: scan_string.induct)
  case 1
  then show ?case by simp
next
  case (2 c cs)
  show ?case
  proof (cases "c = CHR 0x22")
    case True
    with "2.prems" show ?thesis by simp
  next
    case quote: False
    show ?thesis
    proof (cases "c = CHR 0x5C")
      case True
      with quote "2.prems" obtain e cs' where cs: "cs = e # cs'"
        by (cases cs) auto
      show ?thesis
      proof (cases "e = CHR ''u''")
        case True
        with quote \<open>c = CHR 0x5C\<close> cs "2.prems" obtain n s' where
          n: "decode_hex4 (take 4 cs') = Some n" "n < 256"
          and r: "scan_string (drop 4 cs') = Some (s', rest)"
          by (auto split: option.splits if_splits)
        from "2.IH"(1) [OF quote \<open>c = CHR 0x5C\<close> cs True n r]
        have "length rest < length (drop 4 cs')" .
        with cs show ?thesis by simp
      next
        case False
        with quote \<open>c = CHR 0x5C\<close> cs "2.prems" obtain ch s' where
          u: "unescape e = Some ch" and r: "scan_string cs' = Some (s', rest)"
          by (auto split: option.splits)
        from "2.IH"(2) [OF quote \<open>c = CHR 0x5C\<close> cs False u r]
        have "length rest < length cs'" .
        with cs show ?thesis by simp
      qed
    next
      case False
      with quote "2.prems" have ctl: "\<not> (of_char c :: nat) < 32"
        by (auto split: if_splits)
      with quote False "2.prems" obtain s' where r: "scan_string cs = Some (s', rest)"
        by (auto split: option.splits)
      from "2.IH"(3) [OF quote False ctl r] show ?thesis by simp
    qed
  qed
qed

lemma scan_fraction_shorter: "scan_fraction s = (fraction, rest) \<Longrightarrow> length rest \<le> length s"
  by (auto simp: scan_fraction_def split: list.splits if_splits
      intro: le_SucI length_dropWhile_le)

lemma scan_exponent_shorter: "scan_exponent s = (e, rest) \<Longrightarrow> length rest \<le> length s"
  by (auto simp: scan_exponent_def Let_def split: list.splits if_splits
      intro: le_SucI length_dropWhile_le order_trans [OF length_dropWhile_le])

lemma scan_number_shorter:
  assumes "scan_number s = Some (v, rest)"
  shows "length rest < length s"
proof -
  define s1 where "s1 = (case s of c # cs \<Rightarrow> if c = CHR ''-'' then cs else s | [] \<Rightarrow> s)"
  define ds where "ds = takeWhile is_digit s1"
  define int_digits where "int_digits = (if hd ds = CHR ''0'' then [CHR ''0''] else ds)"
  define s2 where "s2 = drop (length int_digits) s1"
  obtain fraction s3 where f: "scan_fraction s2 = (fraction, s3)"
    by (cases "scan_fraction s2")
  obtain ex s4 where e: "scan_exponent s3 = (ex, s4)"
    by (cases "scan_exponent s3")
  have s1_split: "(case s of c # cs \<Rightarrow> if c = CHR ''-'' then (True, cs) else (False, s)
                   | [] \<Rightarrow> (False, s)) = ((case s of c # cs \<Rightarrow> c = CHR ''-'' | [] \<Rightarrow> False), s1)"
    by (auto simp: s1_def split: list.splits)
  from assms have ne: "ds \<noteq> []"
    unfolding scan_number_def s1_split
    by (auto simp: Let_def ds_def split: if_splits)
  with assms f e have rest: "rest = s4"
    unfolding scan_number_def s1_split
    by (auto simp: Let_def ds_def s2_def int_digits_def split: if_splits)
  from ne have "int_digits \<noteq> []"
    by (simp add: int_digits_def)
  moreover have "length int_digits \<le> length ds"
    using ne by (cases ds) (simp_all add: int_digits_def)
  moreover have "length ds \<le> length s1"
    by (simp add: ds_def length_takeWhile_le)
  ultimately have "length s2 < length s1"
    by (cases int_digits) (simp_all add: s2_def)
  moreover have "length s1 \<le> length s"
    by (auto simp: s1_def split: list.splits)
  moreover from f have "length s3 \<le> length s2"
    by (rule scan_fraction_shorter)
  moreover from e have "length s4 \<le> length s3"
    by (rule scan_exponent_shorter)
  ultimately show ?thesis
    using rest by simp
qed

text \<open>
  The lexer. After whitespace and punctuation come, in the order of the scanner: a string,
  the literals \<^verbatim>\<open>null\<close>, \<^verbatim>\<open>true\<close>, \<^verbatim>\<open>false\<close>, \<^verbatim>\<open>NaN\<close>, \<^verbatim>\<open>Infinity\<close>, \<^verbatim>\<open>-Infinity\<close>, and a
  number.
\<close>

definition scan_literal :: "string \<Rightarrow> (json \<times> nat) option" where
  "scan_literal s =
     (if take 4 s = ''null'' then Some (JNull, 4)
      else if take 4 s = ''true'' then Some (JBool True, 4)
      else if take 5 s = ''false'' then Some (JBool False, 5)
      else if take 3 s = ''NaN'' then Some (JFloat NaN, 3)
      else if take 8 s = ''Infinity'' then Some (JFloat PosInfinity, 8)
      else if take 9 s = ''-Infinity'' then Some (JFloat NegInfinity, 9)
      else None)"

lemma scan_literal_pos: "scan_literal s = Some (v, n) \<Longrightarrow> 0 < n \<and> n \<le> length s"
proof -
  assume a: "scan_literal s = Some (v, n)"
  have len: "\<And>k t. take k s = t \<Longrightarrow> length t = k \<Longrightarrow> k \<le> length s"
    by (metis length_take min.cobounded1 min_def)
  from a show ?thesis
    by (auto simp: scan_literal_def split: if_splits dest!: len)
qed

function tokenize :: "string \<Rightarrow> token list option" where
  "tokenize [] = Some []"
| "tokenize (c # cs) =
     (if c \<in> {CHR '' '', CHR 0x09, CHR 0x0A, CHR 0x0D} then tokenize cs
      else if c = CHR ''{'' then map_option ((#) LBrace) (tokenize cs)
      else if c = CHR ''}'' then map_option ((#) RBrace) (tokenize cs)
      else if c = CHR ''['' then map_option ((#) LBracket) (tokenize cs)
      else if c = CHR '']'' then map_option ((#) RBracket) (tokenize cs)
      else if c = CHR '':'' then map_option ((#) Colon) (tokenize cs)
      else if c = CHR '','' then map_option ((#) Comma) (tokenize cs)
      else if c = CHR 0x22 then
        (case scan_string cs of
           None \<Rightarrow> None
         | Some (s, rest) \<Rightarrow> map_option ((#) (Scalar (JStr s))) (tokenize rest))
      else
        (case scan_literal (c # cs) of
           Some (v, n) \<Rightarrow> map_option ((#) (Scalar v)) (tokenize (drop n (c # cs)))
         | None \<Rightarrow>
             (case scan_number (c # cs) of
                None \<Rightarrow> None
              | Some (v, rest) \<Rightarrow> map_option ((#) (Scalar v)) (tokenize rest))))"
  by pat_completeness auto
termination
proof (relation "measure length")
  show "wf (measure length)" by simp
next
  fix c cs x2 x y
  assume "scan_string cs = Some x2" "(x, y) = x2"
  then have "scan_string cs = Some (x, y)" by simp
  from scan_string_shorter [OF this]
  show "(y, c # cs) \<in> measure length" by simp
next
  fix c cs x2 x y
  assume "scan_literal (c # cs) = Some x2" "(x, y) = x2"
  then have "scan_literal (c # cs) = Some (x, y)" by simp
  from scan_literal_pos [OF this]
  show "(drop y (c # cs), c # cs) \<in> measure length" by simp
next
  fix c cs x2 x y
  assume "scan_number (c # cs) = Some x2" "(x, y) = x2"
  then have "scan_number (c # cs) = Some (x, y)" by simp
  from scan_number_shorter [OF this]
  show "(y, c # cs) \<in> measure length" by simp
qed simp_all

text \<open>
  The grammar, read by a machine with a stack of the containers that are open:
  a list with its elements so far, an object with its pairs so far, or an object with a
  key whose value is awaited. A repeated key keeps its place and takes the last value, as
  a \<^verbatim>\<open>dict\<close> does.
\<close>

datatype frame = FList "json list" | FDict pydict | FKey pydict string

datatype mode = Value bool | Key bool | AfterKey | Next | Done json

text \<open>
  \<open>Value may_close\<close> awaits a value, or the closing bracket of an empty list when
  \<open>may_close\<close> holds (just after the opening bracket); \<open>Key may_close\<close> likewise awaits a
  key or the closing brace of an empty object.
\<close>

fun close_value :: "json \<Rightarrow> frame list \<Rightarrow> (mode \<times> frame list) option" where
  "close_value v [] = Some (Done v, [])"
| "close_value v (FList elems # st) = Some (Next, FList (elems @ [v]) # st)"
| "close_value v (FKey pairs k # st) = Some (Next, FDict (AList.update k v pairs) # st)"
| "close_value v (FDict pairs # st) = None"

definition begin_value :: "bool \<Rightarrow> frame list \<Rightarrow> token \<Rightarrow> (mode \<times> frame list) option" where
  "begin_value may_close st t =
     (case t of
        Scalar v \<Rightarrow> close_value v st
      | LBracket \<Rightarrow> Some (Value True, FList [] # st)
      | LBrace \<Rightarrow> Some (Key True, FDict [] # st)
      | RBracket \<Rightarrow>
          (if may_close then
             (case st of FList elems # st' \<Rightarrow> close_value (JList elems) st' | _ \<Rightarrow> None)
           else None)
      | _ \<Rightarrow> None)"

definition begin_key :: "bool \<Rightarrow> frame list \<Rightarrow> token \<Rightarrow> (mode \<times> frame list) option" where
  "begin_key may_close st t =
     (case st of
        FDict pairs # st' \<Rightarrow>
          (case t of
             Scalar v \<Rightarrow> (case v of JStr k \<Rightarrow> Some (AfterKey, FKey pairs k # st') | _ \<Rightarrow> None)
           | RBrace \<Rightarrow> (if may_close then close_value (JDict pairs) st' else None)
           | _ \<Rightarrow> None)
      | _ \<Rightarrow> None)"

definition after_value :: "frame list \<Rightarrow> token \<Rightarrow> (mode \<times> frame list) option" where
  "after_value st t =
     (case st of
        FList elems # st' \<Rightarrow>
          (case t of
             Comma \<Rightarrow> Some (Value False, st)
           | RBracket \<Rightarrow> close_value (JList elems) st'
           | _ \<Rightarrow> None)
      | FDict pairs # st' \<Rightarrow>
          (case t of
             Comma \<Rightarrow> Some (Key False, st)
           | RBrace \<Rightarrow> close_value (JDict pairs) st'
           | _ \<Rightarrow> None)
      | _ \<Rightarrow> None)"

definition parse_step :: "mode \<Rightarrow> frame list \<Rightarrow> token \<Rightarrow> (mode \<times> frame list) option" where
  "parse_step m st t =
     (case m of
        Value may_close \<Rightarrow> begin_value may_close st t
      | Key may_close \<Rightarrow> begin_key may_close st t
      | AfterKey \<Rightarrow> (case t of Colon \<Rightarrow> Some (Value False, st) | _ \<Rightarrow> None)
      | Next \<Rightarrow> after_value st t
      | Done v \<Rightarrow> None)"

fun parse_tokens :: "mode \<Rightarrow> frame list \<Rightarrow> token list \<Rightarrow> json option" where
  "parse_tokens m st [] = (case m of Done v \<Rightarrow> Some v | _ \<Rightarrow> None)"
| "parse_tokens m st (t # ts) =
     (case parse_step m st t of
        None \<Rightarrow> None
      | Some (m', st') \<Rightarrow> parse_tokens m' st' ts)"

definition json_loads :: decoder where
  "json_loads s = (case tokenize s of None \<Rightarrow> None | Some ts \<Rightarrow> parse_tokens (Value False) [] ts)"

section \<open>Trajectory converter\<close>

text \<open>
  The body of the loop of \<^verbatim>\<open>main\<close> in \<^verbatim>\<open>parse_trajectories.py\<close>, for one transcript. A step
  is an object with an optional \<^verbatim>\<open>response\<close> string; \<open>response_text\<close> is
  \<^verbatim>\<open>step.get("response") or ""\<close>. \<open>find_payload\<close> is the loop over
  \<^verbatim>\<open>reversed(trajectory)\<close> that stops at the first step whose response yields a payload;
  \<open>select_payload\<close> adds the fallback that follows the loop and returns the payload, the
  raw response and whether the payload was missing. \<open>normalize_payload\<close> computes the three
  lists of the output record.
\<close>

record step =
  response :: "string option"

record loc_output =
  instance_id :: string
  found_files :: "string list"
  found_modules :: "string list"
  found_entities :: "string list"
  raw_output_loc :: "string list"
  meta_data :: pydict

definition build_meta :: "pydict \<Rightarrow> pydict" where
  "build_meta record =
     concat (map (\<lambda>key. case map_of record key of Some v \<Rightarrow> [(key, v)] | None \<Rightarrow> [])
               [''repo'', ''base_commit'', ''problem_statement'', ''patch'', ''test_patch''])"

definition response_text :: "step \<Rightarrow> string" where
  "response_text step = (case response step of None \<Rightarrow> [] | Some r \<Rightarrow> r)"

fun find_payload :: "decoder \<Rightarrow> step list \<Rightarrow> (pydict \<times> string) option" where
  "find_payload loads [] = None"
| "find_payload loads (step # rest) =
     (let response = response_text step
      in case fst (extract_json_payload loads response) of
           Some parsed \<Rightarrow> Some (parsed, response)
         | None \<Rightarrow> find_payload loads rest)"

definition select_payload :: "decoder \<Rightarrow> step list \<Rightarrow> pydict \<times> string option \<times> bool" where
  "select_payload loads trajectory =
     (case find_payload loads (rev trajectory) of
        Some (payload, raw_response) \<Rightarrow> (payload, Some raw_response, False)
      | None \<Rightarrow>
          ([], (if trajectory \<noteq> [] then response (last trajectory) else Some []), True))"

definition normalize_payload :: "pydict \<Rightarrow> string list \<times> string list \<times> string list" where
  "normalize_payload payload =
     (let found_files = normalize_list (dict_get payload ''found_files'');
          found_entities = normalize_list (dict_get payload ''found_entities'');
          found_files =
            (if found_files = [] \<and> found_entities \<noteq> []
             then normalize_list (str_list (map before_colon
                    (filter (\<lambda>item. CHR '':'' \<in> set item) found_entities)))
             else found_files);
          found_modules = normalize_list (dict_get payload ''found_modules'');
          found_modules =
            (if found_modules = [] \<and> found_entities \<noteq> []
             then entities_to_modules found_entities
             else found_modules)
      in (found_files, found_modules, found_entities))"

definition convert :: "decoder \<Rightarrow> string \<Rightarrow> pydict \<Rightarrow> step list \<Rightarrow> loc_output \<times> bool" where
  "convert loads stem bench_record trajectory =
     (let (payload, raw_response, missing) = select_payload loads trajectory;
          (files, modules, entities) = normalize_payload payload
      in (\<lparr>instance_id = stem,
           found_files = files,
           found_modules = modules,
           found_entities = entities,
           raw_output_loc = (case raw_response of
                               Some r \<Rightarrow> if r \<noteq> [] then [r] else []
                             | None \<Rightarrow> []),
           meta_data = build_meta bench_record\<rparr>, missing))"

section \<open>Instance builder\<close>

text \<open>
  \<^verbatim>\<open>main\<close> of \<^verbatim>\<open>prepare_instances.py\<close>. The dataset is the list of its decoded records, each
  with optional string fields (the data model of the specification); the compiled filter
  is the predicate \<^verbatim>\<open>regex.search\<close>, the file system is the predicate \<open>path_exists\<close>, and
  the path of a repository is written with a slash after the root. The loop carries the
  lines written so far, the list \<^verbatim>\<open>missing_repos\<close> and the counter \<^verbatim>\<open>count\<close>; it stops
  (\<^verbatim>\<open>break\<close>) when \<^verbatim>\<open>args.limit and count >= args.limit\<close> holds after an instance was
  written. What the run prints is kept as a list of messages.
\<close>

record benchmark_record =
  br_instance_id :: "string option"
  br_repo :: "string option"
  br_base_commit :: "string option"
  br_problem_statement :: "string option"

record builder_args =
  repo_root :: string
  image_name :: string
  regex :: "(string \<Rightarrow> bool) option"
  limit :: "int option"
  skip_missing :: bool

definition build_repo_path :: "string \<Rightarrow> string \<Rightarrow> string" where
  "build_repo_path root_dir repo_slug =
     root_dir @ ''/'' @ map (\<lambda>c. if c = CHR ''/'' then CHR ''_'' else c) repo_slug"

definition or_default :: "string option \<Rightarrow> string \<Rightarrow> string" where
  "or_default v d = (case v of None \<Rightarrow> d | Some s \<Rightarrow> if s = [] then d else s)"

definition make_instance :: "builder_args \<Rightarrow> benchmark_record \<Rightarrow> string \<Rightarrow> string \<Rightarrow> pydict" where
  "make_instance args record inst_id repo_slug =
     (let repo_path = build_repo_path (repo_root args) repo_slug;
          base_commit = or_default (br_base_commit record) ''HEAD'';
          problem_statement = or_default (br_problem_statement record) []
      in [(''image_name'', JStr (image_name args)),
          (''problem_statement'', JStr problem_statement),
          (''instance_id'', JStr inst_id),
          (''repo_name'', JStr repo_path),
          (''base_commit'', JStr base_commit),
          (''extra_fields'', JDict [(''repo_slug'', JStr repo_slug),
                                    (''repo_path'', JStr repo_path),
                                    (''base_commit'', JStr base_commit)])])"

record build_state =
  written :: "pydict list"
  missing_repos :: "string list"
  count :: int

definition limit_reached :: "builder_args \<Rightarrow> int \<Rightarrow> bool" where
  "limit_reached args n = (case limit args of None \<Rightarrow> False | Some l \<Rightarrow> l \<noteq> 0 \<and> n \<ge> l)"

definition filtered_out :: "builder_args \<Rightarrow> string \<Rightarrow> bool" where
  "filtered_out args inst_id = (case regex args of None \<Rightarrow> False | Some search \<Rightarrow> \<not> search inst_id)"

fun scan_records ::
  "builder_args \<Rightarrow> (string \<Rightarrow> bool) \<Rightarrow> benchmark_record list \<Rightarrow> build_state \<Rightarrow> build_state" where
  "scan_records args path_exists [] st = st"
| "scan_records args path_exists (record # rest) st =
     (case br_instance_id record of
        None \<Rightarrow> scan_records args path_exists rest st
      | Some inst_id \<Rightarrow>
          if inst_id = [] then scan_records args path_exists rest st
          else if filtered_out args inst_id then scan_records args path_exists rest st
          else
            (case br_repo record of
               None \<Rightarrow> scan_records args path_exists rest st
             | Some repo_slug \<Rightarrow>
                 if repo_slug = [] then scan_records args path_exists rest st
                 else if \<not> path_exists (build_repo_path (repo_root args) repo_slug) then
                   (if skip_missing args then scan_records args path_exists rest st
                    else scan_records args path_exists rest
                           (st\<lparr>missing_repos := missing_repos st @ [repo_slug]\<rparr>))
                 else
                   (let st' = st\<lparr>written := written st @ [make_instance args record inst_id repo_slug],
                                 count := count st + 1\<rparr>
                    in if limit_reached args (count st') then st'
                       else scan_records args path_exists rest st')))"

datatype message =
    DatasetNotFound
  | RepoRootNotFound
  | Missing nat "string list"
  | WarningMissing nat "string list"
  | Wrote int

record run_result =
  exit_code :: int
  output_file :: "pydict list option"
  messages :: "message list"

definition main :: "builder_args \<Rightarrow> (string \<Rightarrow> bool) \<Rightarrow> benchmark_record list option \<Rightarrow> run_result" where
  "main args path_exists dataset =
     (case dataset of
        None \<Rightarrow> \<lparr>exit_code = 2, output_file = None, messages = [DatasetNotFound]\<rparr>
      | Some records \<Rightarrow>
          if \<not> path_exists (repo_root args)
          then \<lparr>exit_code = 2, output_file = None, messages = [RepoRootNotFound]\<rparr>
          else
            let st = scan_records args path_exists records
                       \<lparr>written = [], missing_repos = [], count = 0\<rparr>
            in if missing_repos st \<noteq> [] then
                 (if skip_missing args
                  then \<lparr>exit_code = 0, output_file = Some (written st),
                        messages = [WarningMissing (length (missing_repos st)) (take 10 (missing_repos st)),
                                    Wrote (count st)]\<rparr>
                  else \<lparr>exit_code = 3, output_file = Some (written st),
                        messages = [Missing (length (missing_repos st)) (take 10 (missing_repos st))]\<rparr>)
               else \<lparr>exit_code = 0, output_file = Some (written st), messages = [Wrote (count st)]\<rparr>)"

section \<open>The words of the specification\<close>

subsection \<open>Normaliser\<close>

text \<open>Duplicates dropped, the first occurrence kept, input order preserved.\<close>

fun keep_first :: "'a list \<Rightarrow> 'a list" where
  "keep_first [] = []"
| "keep_first (x # xs) = x # keep_first (removeAll x xs)"

text \<open>
  The strings a value contributes to \<^verbatim>\<open>normalizeList\<close>: a single string, or the string
  elements of a sequence, each trimmed, the empty ones dropped.
\<close>

fun string_items :: "json list \<Rightarrow> string list" where
  "string_items [] = []"
| "string_items (JStr s # items) = s # string_items items"
| "string_items (_ # items) = string_items items"

definition cleaned_items :: "json \<Rightarrow> string list" where
  "cleaned_items v =
     filter (\<lambda>s. s \<noteq> []) (map strip (case v of JStr s \<Rightarrow> [s] | JList xs \<Rightarrow> string_items xs | _ \<Rightarrow> []))"

text \<open>
  The module identifier of an entity with a colon: \<open>filePath:moduleName\<close> when the module
  name is not empty, otherwise the file path alone.
\<close>

definition module_identifier :: "string \<Rightarrow> string" where
  "module_identifier entity =
     (let filePath = before_colon entity;
          qualifiedName = after_colon entity;
          moduleName = first_segment qualifiedName
      in if moduleName \<noteq> [] then filePath @ '':'' @ moduleName else filePath)"

definition derive_modules_spec :: "string list \<Rightarrow> string list" where
  "derive_modules_spec entities =
     keep_first (map module_identifier (filter (\<lambda>e. CHR '':'' \<in> set e) entities))"

subsection \<open>Extractor\<close>





subsection \<open>Converter\<close>

text \<open>
  What a step yields to the extractor, and the files derived from the entities: the part
  of each entity before its first colon, trimmed, without the empty ones and without
  duplicates.
\<close>

definition yields :: "decoder \<Rightarrow> step \<Rightarrow> pydict option" where
  "yields loads step = fst (extract_json_payload loads (response_text step))"
definition derived_files :: "string list \<Rightarrow> string list" where
  "derived_files entities =
     keep_first (filter (\<lambda>s. s \<noteq> [])
       (map (\<lambda>e. strip (before_colon e)) (filter (\<lambda>e. CHR '':'' \<in> set e) entities)))"

subsection \<open>Builder\<close>

text \<open>
  A record is eligible when its \<^verbatim>\<open>instance_id\<close> is not empty and passes the filter and its
  \<^verbatim>\<open>repo\<close> is not empty; its repository is present or missing according to the file
  system. \<open>scanned\<close> gives the records the loop reads: all of them up to the one whose
  instance makes the counter reach the limit.
\<close>

definition eligible :: "builder_args \<Rightarrow> benchmark_record \<Rightarrow> bool" where
  "eligible args record =
     (case br_instance_id record of
        None \<Rightarrow> False
      | Some inst_id \<Rightarrow>
          inst_id \<noteq> [] \<and> \<not> filtered_out args inst_id
          \<and> (case br_repo record of None \<Rightarrow> False | Some repo_slug \<Rightarrow> repo_slug \<noteq> []))"

definition slug :: "benchmark_record \<Rightarrow> string" where
  "slug record = (case br_repo record of None \<Rightarrow> [] | Some s \<Rightarrow> s)"

definition repo_present :: "builder_args \<Rightarrow> (string \<Rightarrow> bool) \<Rightarrow> benchmark_record \<Rightarrow> bool" where
  "repo_present args path_exists record =
     (eligible args record \<and> path_exists (build_repo_path (repo_root args) (slug record)))"

definition repo_missing :: "builder_args \<Rightarrow> (string \<Rightarrow> bool) \<Rightarrow> benchmark_record \<Rightarrow> bool" where
  "repo_missing args path_exists record =
     (eligible args record \<and> \<not> path_exists (build_repo_path (repo_root args) (slug record)))"

definition instance_of :: "builder_args \<Rightarrow> benchmark_record \<Rightarrow> pydict" where
  "instance_of args record =
     make_instance args record (case br_instance_id record of None \<Rightarrow> [] | Some i \<Rightarrow> i) (slug record)"

text \<open>The records the loop reads, given the number of instances emitted so far.\<close>

fun scanned :: "builder_args \<Rightarrow> (string \<Rightarrow> bool) \<Rightarrow> int \<Rightarrow> benchmark_record list \<Rightarrow> benchmark_record list" where
  "scanned args path_exists n [] = []"
| "scanned args path_exists n (record # rest) =
     record # (if repo_present args path_exists record
               then (if limit_reached args (n + 1) then []
                     else scanned args path_exists (n + 1) rest)
               else scanned args path_exists n rest)"

section \<open>Example data\<close>

text \<open>
  A repository root with the mirrors of \<^verbatim>\<open>org/ok\<close> and \<^verbatim>\<open>org/more\<close> but not of
  \<^verbatim>\<open>org/gone\<close>, four records, and three transcript steps.
\<close>

definition example_args :: builder_args where
  "example_args = \<lparr>repo_root = ''repos'', image_name = [], regex = None, limit = None,
                    skip_missing = False\<rparr>"

definition example_exists :: "string \<Rightarrow> bool" where
  "example_exists p = (p = ''repos'' \<or> p = ''repos/org_ok'' \<or> p = ''repos/org_more'')"

definition rec_ok :: benchmark_record where
  "rec_ok = \<lparr>br_instance_id = Some ''x1'', br_repo = Some ''org/ok'',
             br_base_commit = Some ''abc123'', br_problem_statement = None\<rparr>"

definition rec_gone :: benchmark_record where
  "rec_gone = \<lparr>br_instance_id = Some ''x2'', br_repo = Some ''org/gone'',
               br_base_commit = None, br_problem_statement = None\<rparr>"

definition rec_more :: benchmark_record where
  "rec_more = \<lparr>br_instance_id = Some ''x3'', br_repo = Some ''org/more'',
               br_base_commit = None, br_problem_statement = None\<rparr>"

definition rec_norepo :: benchmark_record where
  "rec_norepo = \<lparr>br_instance_id = Some ''x4'', br_repo = None,
                 br_base_commit = None, br_problem_statement = None\<rparr>"

definition step_json :: step where
  \<open>step_json = \<lparr>response = Some (''Done. ```json'' @ [CHR 0x0A]
                                   @ ''{"found_files": ["a.py"]}'' @ [CHR 0x0A] @ ''```'')\<rparr>\<close>

definition step_prose :: step where
  "step_prose = \<lparr>response = Some ''Let me look at the code.''\<rparr>"

definition step_silent :: step where
  "step_silent = \<lparr>response = None\<rparr>"

section \<open>Properties of the normaliser\<close>

lemma strip_prefix_part:
  "rev (dropWhile P (rev u)) @ rev (takeWhile P (rev u)) = u"
proof -
  have "rev (takeWhile P (rev u) @ dropWhile P (rev u)) = u"
    by simp
  then show ?thesis
    by (simp only: rev_append)
qed

lemma dropWhile_trim_right:
  assumes "dropWhile P u = u"
  shows "dropWhile P (rev (dropWhile P (rev u))) = rev (dropWhile P (rev u))"
proof (cases "rev (dropWhile P (rev u))")
  case Nil
  then show ?thesis by (simp only: dropWhile.simps)
next
  case (Cons a t)
  with strip_prefix_part [of P u] have u: "u = a # t @ rev (takeWhile P (rev u))"
    by simp
  have "\<not> P a"
  proof
    assume "P a"
    with u have "dropWhile P u \<noteq> u"
      by (metis dropWhile.simps(2) length_dropWhile_le impossible_Cons)
    with assms show False by simp
  qed
  then have "dropWhile P (a # t) = a # t"
    by simp
  then show ?thesis
    by (simp only: Cons)
qed

lemma strip_idem: "strip (strip s) = strip s"
proof -
  let ?u = "dropWhile is_space s"
  have "dropWhile is_space ?u = ?u"
    by simp
  then have a: "dropWhile is_space (strip s) = strip s"
    unfolding strip_def by (rule dropWhile_trim_right)
  have b: "dropWhile is_space (rev (strip s)) = rev (strip s)"
    unfolding strip_def by simp
  show ?thesis
    unfolding strip_def [of "strip s"] by (simp only: a b rev_rev_ident)
qed

lemma keep_first_set: "set (keep_first xs) = set xs"
  by (induction xs rule: keep_first.induct) auto

lemma keep_first_distinct: "distinct (keep_first xs)"
  by (induction xs rule: keep_first.induct) (auto simp: keep_first_set)

lemma keep_first_of_distinct: "distinct xs \<Longrightarrow> keep_first xs = xs"
  by (induction xs) (auto simp: removeAll_id)

lemma keep_first_skip:
  "x \<in> S \<Longrightarrow> keep_first (filter (\<lambda>y. y \<notin> S) (x # xs)) = keep_first (filter (\<lambda>y. y \<notin> S) xs)"
  by simp

lemma removeAll_filter_notin:
  "removeAll x (filter (\<lambda>y. y \<notin> S) xs) = filter (\<lambda>y. y \<notin> insert x S) xs"
  by (induction xs) auto

lemma keep_first_take:
  "x \<notin> S \<Longrightarrow> keep_first (filter (\<lambda>y. y \<notin> S) (x # xs))
     = x # keep_first (filter (\<lambda>y. y \<notin> insert x S) xs)"
  by (simp add: removeAll_filter_notin)

lemma normalize_items_spec:
  "normalize_items items seen result
     = result @ keep_first (filter (\<lambda>s. s \<notin> seen)
                  (filter (\<lambda>s. s \<noteq> []) (map strip (string_items items))))"
proof (induction items seen result rule: normalize_items.induct)
  case (1 seen result)
  show ?case by simp
next
  case (2 item items seen result)
  show ?case
  proof (cases "strip item = [] \<or> strip item \<in> seen")
    case True
    with "2.IH"(1) [OF refl True] show ?thesis
      by (auto simp: Let_def simp del: filter_filter)
  next
    case False
    with "2.IH"(2) [OF refl False] show ?thesis
      by (simp add: removeAll_filter_notin Let_def del: filter_filter)
  qed
qed simp_all

lemma normalize_list_spec: "normalize_list v = keep_first (cleaned_items v)"
proof (cases v)
  case (JStr s)
  then show ?thesis
    by (cases "strip s = []")
       (auto simp: normalize_list_def cleaned_items_def normalize_items_spec strip_def)
next
  case (JList xs)
  then show ?thesis
    by (cases xs) (simp_all add: normalize_list_def cleaned_items_def normalize_items_spec)
qed (simp_all add: normalize_list_def cleaned_items_def)

lemma normalize_list_distinct: "distinct (normalize_list v)"
  by (simp add: normalize_list_spec keep_first_distinct)

lemma cleaned_items_stripped:
  "s \<in> set (cleaned_items v) \<Longrightarrow> s \<noteq> [] \<and> strip s = s"
  by (auto simp: cleaned_items_def strip_idem)

lemma normalize_list_elems:
  "s \<in> set (normalize_list v) \<Longrightarrow> s \<noteq> [] \<and> strip s = s"
  using cleaned_items_stripped [of s v] by (simp add: normalize_list_spec keep_first_set)

lemma string_items_JStr: "string_items (map JStr xs) = xs"
  by (induction xs) simp_all

lemma cleaned_items_str_list:
  "\<forall>s \<in> set xs. s \<noteq> [] \<and> strip s = s \<Longrightarrow> cleaned_items (str_list xs) = xs"
proof -
  assume a: "\<forall>s \<in> set xs. s \<noteq> [] \<and> strip s = s"
  then have "map strip xs = xs"
    by (simp add: map_idI)
  moreover from a have "filter (\<lambda>s. s \<noteq> []) xs = xs"
    by (simp add: filter_id_conv)
  ultimately show ?thesis
    by (simp add: cleaned_items_def str_list_def string_items_JStr)
qed

lemma modules_loop_spec:
  "modules_loop entities seen modules
     = modules @ keep_first (filter (\<lambda>m. m \<notin> seen)
                   (map module_identifier (filter (\<lambda>e. CHR '':'' \<in> set e) entities)))"
proof (induction entities arbitrary: seen modules)
  case Nil
  show ?case by simp
next
  case (Cons entity rest)
  show ?case
  proof (cases "CHR '':'' \<in> set entity")
    case False
    then show ?thesis by (simp add: Cons.IH)
  next
    case True
    show ?thesis
    proof (cases "module_identifier entity \<in> seen")
      case True
      with \<open>CHR '':'' \<in> set entity\<close> show ?thesis
        by (simp add: Cons.IH module_identifier_def Let_def)
    next
      case False
      with \<open>CHR '':'' \<in> set entity\<close> show ?thesis
        by (simp add: Cons.IH module_identifier_def Let_def removeAll_filter_notin)
    qed
  qed
qed

section \<open>Claims on the normaliser\<close>

text \<open>
  C5. For every list of entity strings, \<^verbatim>\<open>entities_to_modules\<close> skips the entities without
  a colon, cuts each other one at its first colon into file path and qualified name, takes
  the part of the qualified name before its first dot as module name, forms
  \<open>filePath:moduleName\<close> (the file path alone when the module name is empty), and returns
  these identifiers without duplicates, first occurrences kept in input order. For the
  entities \<open>a/b.py:Foo.bar\<close>, \<open>a/b.py:Foo.baz\<close>, \<open>c/d.py:Qux\<close> the result is
  \<open>a/b.py:Foo\<close>, \<open>c/d.py:Qux\<close>.
\<close>

theorem entities_to_modules_derivation:
  "entities_to_modules entities = derive_modules_spec entities
   \<and> entities_to_modules [''a/b.py:Foo.bar'', ''a/b.py:Foo.baz'', ''c/d.py:Qux'']
       = [''a/b.py:Foo'', ''c/d.py:Qux'']"
proof
  show "entities_to_modules entities = derive_modules_spec entities"
    by (simp add: entities_to_modules_def derive_modules_spec_def modules_loop_spec)
  show "entities_to_modules [''a/b.py:Foo.bar'', ''a/b.py:Foo.baz'', ''c/d.py:Qux'']
       = [''a/b.py:Foo'', ''c/d.py:Qux'']"
    by (simp add: entities_to_modules_def before_colon_def after_colon_def
        first_segment_def)
qed

text \<open>
  C6. \<^verbatim>\<open>normalize_list\<close> is idempotent: applied to its own result (a list of strings) it
  returns that same list, for every input value.
\<close>

theorem normalize_list_idempotent:
  "normalize_list (str_list (normalize_list v)) = normalize_list v"
proof -
  have "\<forall>s \<in> set (normalize_list v). s \<noteq> [] \<and> strip s = s"
    using normalize_list_elems by blast
  then have "cleaned_items (str_list (normalize_list v)) = normalize_list v"
    by (rule cleaned_items_str_list)
  then show ?thesis
    using normalize_list_distinct [of v]
    by (simp add: normalize_list_spec [of "str_list (normalize_list v)"] keep_first_of_distinct)
qed

section \<open>Properties of the extractor\<close>










lemma until_fence_complete: "until_fence (a @ ''```'' @ b) \<noteq> None"
proof (induction a)
  case Nil
  show ?case by simp
next
  case (Cons x a)
  then show ?case
    by (cases "take 3 (x # a @ ''```'' @ b) = ''```''") (auto split: option.splits)
qed

lemma dropWhile_keeps_fence:
  "\<exists>a' b'. dropWhile is_space (a @ ''```'' @ b) = a' @ ''```'' @ b'"
proof (induction a)
  case Nil
  have "\<not> is_space (CHR 0x60)"
    by (simp add: is_space_def)
  then have "dropWhile is_space ([] @ ''```'' @ b) = [] @ ''```'' @ b"
    by simp
  then show ?case by blast
next
  case (Cons x a)
  show ?case
  proof (cases "is_space x")
    case True
    with Cons.IH show ?thesis by simp
  next
    case False
    then have "dropWhile is_space ((x # a) @ ''```'' @ b) = (x # a) @ ''```'' @ b"
      by simp
    then show ?thesis by blast
  qed
qed

lemma json_tag_letters:
  assumes "json_tag s"
  shows "4 \<le> length s \<and> (\<forall>i < 4. s ! i \<noteq> CHR 0x60)"
proof -
  from assms obtain c1 c2 c3 c4 where t: "take 4 s = [c1, c2, c3, c4]"
    and m: "c1 \<in> {CHR ''j'', CHR ''J''}" "c2 \<in> {CHR ''s'', CHR ''S''}"
           "c3 \<in> {CHR ''o'', CHR ''O''}" "c4 \<in> {CHR ''n'', CHR ''N''}"
    by (auto simp: json_tag_def split: list.splits)
  from t have len: "4 \<le> length s"
    by (metis length_take min.cobounded1 length_Cons list.size(3) numeral_eq_Suc One_nat_def
        Suc_eq_plus1 add_2_eq_Suc' numeral_2_eq_2 numeral_3_eq_3 pred_numeral_simps(2) min_def
        semiring_norm(26,27))
  have "\<forall>i < 4. s ! i = [c1, c2, c3, c4] ! i"
    using t by (metis nth_take)
  with m have "\<forall>i < 4. s ! i \<noteq> CHR 0x60"
    by (auto simp: less_Suc_eq numeral_eq_Suc)
  with len show ?thesis by simp
qed

lemma drop_keeps_fence:
  assumes "x = pre @ ''```'' @ rest" and "\<forall>i < k. x ! i \<noteq> CHR 0x60"
  shows "drop k x = drop k pre @ ''```'' @ rest"
proof -
  have "k \<le> length pre"
  proof (rule ccontr)
    assume "\<not> k \<le> length pre"
    then have "length pre < k" by simp
    with assms(2) have "x ! length pre \<noteq> CHR 0x60" by simp
    moreover from assms(1) have "x ! length pre = CHR 0x60"
      by (simp add: nth_append)
    ultimately show False by simp
  qed
  with assms(1) show ?thesis by simp
qed

lemma match_code_block_complete:
  "match_code_block (''```'' @ pre @ ''```'' @ rest) \<noteq> None"
proof -
  let ?s = "''```'' @ pre @ ''```'' @ rest"
  let ?s1 = "pre @ ''```'' @ rest"
  have s1: "drop 3 ?s = ?s1" and t: "take 3 ?s = ''```''"
    by simp_all
  define s2 where "s2 = (if json_tag ?s1 then drop 4 ?s1 else ?s1)"
  have "\<exists>a. s2 = a @ ''```'' @ rest"
  proof (cases "json_tag ?s1")
    case True
    from json_tag_letters [OF True] have "\<forall>i < 4. ?s1 ! i \<noteq> CHR 0x60"
      by simp
    from drop_keeps_fence [OF refl this] True show ?thesis
      by (auto simp: s2_def)
  next
    case False
    then show ?thesis
      by (auto simp: s2_def)
  qed
  then obtain a where "s2 = a @ ''```'' @ rest" ..
  with dropWhile_keeps_fence [of a rest] obtain a' b' where
    "dropWhile is_space s2 = a' @ ''```'' @ b'"
    by auto
  with until_fence_complete [of a' b'] have "until_fence (dropWhile is_space s2) \<noteq> None"
    by simp
  then show ?thesis
    unfolding match_code_block_def s1 Let_def s2_def [symmetric] using t by simp
qed









section \<open>Claims on the extractor\<close>








section \<open>Properties of the converter\<close>

lemma find_payload_None:
  "find_payload loads steps = None \<longleftrightarrow> (\<forall>s \<in> set steps. yields loads s = None)"
  by (induction steps) (auto simp: yields_def Let_def split: option.splits)

lemma find_payload_first:
  "yields loads s = Some payload \<Longrightarrow> \<forall>t \<in> set earlier. yields loads t = None \<Longrightarrow>
     find_payload loads (earlier @ s # later) = Some (payload, response_text s)"
  by (induction earlier) (auto simp: yields_def Let_def)

lemma normalize_list_JNull: "normalize_list JNull = []"
  by (simp add: normalize_list_def)

lemma normalize_payload_empty: "normalize_payload [] = ([], [], [])"
  by (simp add: normalize_payload_def dict_get_def normalize_list_JNull)

lemma cleaned_items_of_strings:
  "cleaned_items (str_list xs) = filter (\<lambda>s. s \<noteq> []) (map strip xs)"
  by (simp add: cleaned_items_def str_list_def string_items_JStr)

lemma entities_to_modules_distinct: "distinct (entities_to_modules es)"
  by (simp add: entities_to_modules_def modules_loop_spec keep_first_distinct)

text \<open>
  C2. The converter reads the steps from the last to the first: when a step yields a
  payload and no later step does, that payload is used and the recorded raw text is the
  response of that step, however many older steps there are (none, when it is the oldest
  step). When no step yields a payload, the payload is the empty mapping, the raw text is
  the response of the last step (the empty string for a transcript without steps), and
  the three lists of the output record are empty.
\<close>

theorem most_recent_payload_wins:
  "(trajectory = older @ s # newer \<and> yields loads s = Some payload
       \<and> (\<forall>t \<in> set newer. yields loads t = None)
     \<longrightarrow> select_payload loads trajectory = (payload, Some (response_text s), False))
   \<and> ((\<forall>t \<in> set trajectory. yields loads t = None)
     \<longrightarrow> select_payload loads trajectory
           = ([], (if trajectory = [] then Some [] else response (last trajectory)), True)
         \<and> found_files (fst (convert loads stem bench_record trajectory)) = []
         \<and> found_modules (fst (convert loads stem bench_record trajectory)) = []
         \<and> found_entities (fst (convert loads stem bench_record trajectory)) = [])"
proof (intro conjI impI)
  assume a: "trajectory = older @ s # newer \<and> yields loads s = Some payload
       \<and> (\<forall>t \<in> set newer. yields loads t = None)"
  then have "rev trajectory = rev newer @ s # rev older"
    by simp
  moreover from a have "\<forall>t \<in> set (rev newer). yields loads t = None"
    by simp
  ultimately have "find_payload loads (rev trajectory) = Some (payload, response_text s)"
    using a find_payload_first [of loads s payload "rev newer" "rev older"] by simp
  then show "select_payload loads trajectory = (payload, Some (response_text s), False)"
    by (simp add: select_payload_def)
next
  assume a: "\<forall>t \<in> set trajectory. yields loads t = None"
  then have "find_payload loads (rev trajectory) = None"
    by (simp add: find_payload_None)
  then show sel: "select_payload loads trajectory
           = ([], (if trajectory = [] then Some [] else response (last trajectory)), True)"
    by (simp add: select_payload_def)
  then show "found_files (fst (convert loads stem bench_record trajectory)) = []"
    and "found_modules (fst (convert loads stem bench_record trajectory)) = []"
    and "found_entities (fst (convert loads stem bench_record trajectory)) = []"
    by (simp_all add: convert_def normalize_payload_empty)
qed

text \<open>
  The theorem at the transcript of the specification (a fenced object in the oldest step,
  then two steps without one), and at a transcript without any payload.
\<close>

theorem most_recent_payload_wins_witness:
  \<open>select_payload json_loads [step_json, step_prose, step_silent]
     = ([(''found_files'', JList [JStr ''a.py''])], response step_json, False)
   \<and> select_payload json_loads [step_prose, step_silent] = ([], None, True)
   \<and> found_files (fst (convert json_loads ''x1'' [] [step_prose, step_silent])) = []
   \<and> found_modules (fst (convert json_loads ''x1'' [] [step_prose, step_silent])) = []
   \<and> found_entities (fst (convert json_loads ''x1'' [] [step_prose, step_silent])) = []\<close>
proof -
  let ?payload = "[(''found_files'', JList [JStr ''a.py''])]"
  have y0: "yields json_loads step_json = Some ?payload"
    by code_simp
  have y1: "yields json_loads step_prose = None"
    by code_simp
  have y2: "yields json_loads step_silent = None"
    by code_simp
  have r0: "Some (response_text step_json) = response step_json"
    by code_simp
  have r2: "response step_silent = None"
    by code_simp
  note t = most_recent_payload_wins
    [where trajectory = "[step_json, step_prose, step_silent]" and older = "[]"
       and s = step_json and newer = "[step_prose, step_silent]"
       and loads = json_loads and payload = ?payload]
  note t' = most_recent_payload_wins
    [where trajectory = "[step_prose, step_silent]" and loads = json_loads
       and stem = "''x1''" and bench_record = "[]"]
  from t y0 y1 y2 r0
  have "select_payload json_loads [step_json, step_prose, step_silent]
     = (?payload, response step_json, False)"
    by simp
  moreover from t' y1 y2 r2
  have "select_payload json_loads [step_prose, step_silent] = ([], None, True)
   \<and> found_files (fst (convert json_loads ''x1'' [] [step_prose, step_silent])) = []
   \<and> found_modules (fst (convert json_loads ''x1'' [] [step_prose, step_silent])) = []
   \<and> found_entities (fst (convert json_loads ''x1'' [] [step_prose, step_silent])) = []"
    by simp
  ultimately show ?thesis
    by simp
qed

text \<open>
  C8. For every payload, the three lists of the output record have no duplicates and keep
  the order of first occurrence of their source values: \<^verbatim>\<open>found_entities\<close> is the trimmed
  non-empty strings of the payload's field; \<^verbatim>\<open>found_files\<close> and \<^verbatim>\<open>found_modules\<close> are the
  same for their own fields when these give at least one string, and are otherwise derived
  from the entities. The record written for a transcript holds these three lists for the
  payload selected.
\<close>

theorem output_lists_distinct_first_seen:
  "(case normalize_payload payload of
      (files, modules, entities) \<Rightarrow>
        distinct files \<and> distinct modules \<and> distinct entities
        \<and> entities = keep_first (cleaned_items (dict_get payload ''found_entities''))
        \<and> files = (if keep_first (cleaned_items (dict_get payload ''found_files'')) = []
                    then derived_files entities
                    else keep_first (cleaned_items (dict_get payload ''found_files'')))
        \<and> modules = (if keep_first (cleaned_items (dict_get payload ''found_modules'')) = []
                      then derive_modules_spec entities
                      else keep_first (cleaned_items (dict_get payload ''found_modules''))))
   \<and> found_files (fst (convert loads stem bench_record trajectory))
       = fst (normalize_payload (fst (select_payload loads trajectory)))
   \<and> found_modules (fst (convert loads stem bench_record trajectory))
       = fst (snd (normalize_payload (fst (select_payload loads trajectory))))
   \<and> found_entities (fst (convert loads stem bench_record trajectory))
       = snd (snd (normalize_payload (fst (select_payload loads trajectory))))"
proof (intro conjI)
  let ?entities = "normalize_list (dict_get payload ''found_entities'')"
  let ?files = "normalize_list (dict_get payload ''found_files'')"
  let ?modules = "normalize_list (dict_get payload ''found_modules'')"
  have derived: "normalize_list (str_list (map before_colon
                    (filter (\<lambda>item. CHR '':'' \<in> set item) ?entities))) = derived_files ?entities"
    by (simp add: normalize_list_spec [of "str_list _"] cleaned_items_of_strings
        derived_files_def comp_def)
  have files_nil: "derived_files [] = []"
    by (simp add: derived_files_def)
  have modules_nil: "derive_modules_spec [] = []"
    by (simp add: derive_modules_spec_def)
  have mods: "entities_to_modules ?entities = derive_modules_spec ?entities"
    by (simp add: entities_to_modules_def derive_modules_spec_def modules_loop_spec)
  show "case normalize_payload payload of
      (files, modules, entities) \<Rightarrow>
        distinct files \<and> distinct modules \<and> distinct entities
        \<and> entities = keep_first (cleaned_items (dict_get payload ''found_entities''))
        \<and> files = (if keep_first (cleaned_items (dict_get payload ''found_files'')) = []
                    then derived_files entities
                    else keep_first (cleaned_items (dict_get payload ''found_files'')))
        \<and> modules = (if keep_first (cleaned_items (dict_get payload ''found_modules'')) = []
                      then derive_modules_spec entities
                      else keep_first (cleaned_items (dict_get payload ''found_modules'')))"
    unfolding normalize_payload_def Let_def prod.case
    using normalize_list_distinct [of "dict_get payload ''found_entities''"]
          normalize_list_distinct [of "dict_get payload ''found_files''"]
          normalize_list_distinct [of "dict_get payload ''found_modules''"]
          normalize_list_distinct [of "str_list (map before_colon
                    (filter (\<lambda>item. CHR '':'' \<in> set item) ?entities))"]
          entities_to_modules_distinct [of ?entities]
          derived mods files_nil modules_nil
    by (simp add: normalize_list_spec [symmetric])
  show "found_files (fst (convert loads stem bench_record trajectory))
       = fst (normalize_payload (fst (select_payload loads trajectory)))"
    by (simp add: convert_def split: prod.splits)
  show "found_modules (fst (convert loads stem bench_record trajectory))
       = fst (snd (normalize_payload (fst (select_payload loads trajectory))))"
    by (simp add: convert_def split: prod.splits)
  show "found_entities (fst (convert loads stem bench_record trajectory))
       = snd (snd (normalize_payload (fst (select_payload loads trajectory))))"
    by (simp add: convert_def split: prod.splits)
qed

section \<open>Properties of the builder\<close>

lemma scan_records_spec:
  "scan_records args path_exists records st =
     st\<lparr>written := written st @ map (instance_of args)
                       (filter (repo_present args path_exists) (scanned args path_exists (count st) records)),
        missing_repos := missing_repos st @
           (if skip_missing args then []
            else map slug (filter (repo_missing args path_exists)
                             (scanned args path_exists (count st) records))),
        count := count st + int (length (filter (repo_present args path_exists)
                                           (scanned args path_exists (count st) records)))\<rparr>"
proof (induction records arbitrary: st)
  case Nil
  show ?case by simp
next
  case (Cons r rest)
  show ?case
  proof (cases "eligible args r")
    case False
    then have "scan_records args path_exists (r # rest) st = scan_records args path_exists rest st"
      by (auto simp: eligible_def split: option.splits)
    with False show ?thesis
      by (simp add: Cons.IH repo_present_def repo_missing_def)
  next
    case True
    then obtain inst_id repo_slug where
      f: "br_instance_id r = Some inst_id" "inst_id \<noteq> []" "\<not> filtered_out args inst_id"
         "br_repo r = Some repo_slug" "repo_slug \<noteq> []"
      by (auto simp: eligible_def split: option.splits)
    then have sl: "slug r = repo_slug"
      by (simp add: slug_def)
    show ?thesis
    proof (cases "path_exists (build_repo_path (repo_root args) repo_slug)")
      case False
      with True sl have pm: "\<not> repo_present args path_exists r" "repo_missing args path_exists r"
        by (simp_all add: repo_present_def repo_missing_def)
      show ?thesis
      proof (cases "skip_missing args")
        case True
        with f False have "scan_records args path_exists (r # rest) st
            = scan_records args path_exists rest st"
          by simp
        with pm True show ?thesis
          by (simp add: Cons.IH)
      next
        case nskip: False
        with f False have "scan_records args path_exists (r # rest) st
            = scan_records args path_exists rest (st\<lparr>missing_repos := missing_repos st @ [repo_slug]\<rparr>)"
          by simp
        with pm nskip sl show ?thesis
          by (simp add: Cons.IH)
      qed
    next
      case ex: True
      with \<open>eligible args r\<close> sl have pm: "repo_present args path_exists r" "\<not> repo_missing args path_exists r"
        by (simp_all add: repo_present_def repo_missing_def)
      have inst: "instance_of args r = make_instance args r inst_id repo_slug"
        by (simp add: instance_of_def f sl)
      show ?thesis
      proof (cases "limit_reached args (count st + 1)")
        case True
        with f ex have "scan_records args path_exists (r # rest) st
            = st\<lparr>written := written st @ [make_instance args r inst_id repo_slug],
                 count := count st + 1\<rparr>"
          by (simp add: Let_def)
        with pm True inst show ?thesis
          by simp
      next
        case False
        with f ex have "scan_records args path_exists (r # rest) st
            = scan_records args path_exists rest
                (st\<lparr>written := written st @ [make_instance args r inst_id repo_slug],
                    count := count st + 1\<rparr>)"
          by (simp add: Let_def)
        with pm False inst show ?thesis
          by (simp add: Cons.IH)
      qed
    qed
  qed
qed

lemma scanned_no_limit:
  "limit args = None \<or> limit args = Some 0 \<Longrightarrow> scanned args path_exists n records = records"
  by (induction records arbitrary: n) (auto simp: limit_reached_def)

lemma scanned_prefix: "\<exists>k. scanned args path_exists n records = take k records"
proof (induction records arbitrary: n)
  case Nil
  show ?case by simp
next
  case (Cons r rest)
  from Cons.IH [of n] obtain k1 where k1: "scanned args path_exists n rest = take k1 rest" ..
  from Cons.IH [of "n + 1"] obtain k2 where k2: "scanned args path_exists (n + 1) rest = take k2 rest" ..
  have "scanned args path_exists n (r # rest) = take (Suc k1) (r # rest)
      \<or> scanned args path_exists n (r # rest) = take (Suc k2) (r # rest)
      \<or> scanned args path_exists n (r # rest) = take (Suc 0) (r # rest)"
    using k1 k2 by simp
  then show ?case by blast
qed

lemma main_spec:
  assumes "path_exists (repo_root args)"
  shows "main args path_exists (Some records) =
     (let sc = scanned args path_exists 0 records;
          out = map (instance_of args) (filter (repo_present args path_exists) sc);
          ms = (if skip_missing args then []
                else map slug (filter (repo_missing args path_exists) sc))
      in if ms \<noteq> []
         then \<lparr>exit_code = 3, output_file = Some out,
               messages = [Missing (length ms) (take 10 ms)]\<rparr>
         else \<lparr>exit_code = 0, output_file = Some out,
               messages = [Wrote (int (length out))]\<rparr>)"
  using assms
  by (simp add: main_def Let_def
      scan_records_spec [of args path_exists records "\<lparr>written = [], missing_repos = [], count = 0\<rparr>"])

lemma main_exit_3:
  assumes "exit_code (main args path_exists dataset) = 3"
  shows "\<exists>records. dataset = Some records \<and> path_exists (repo_root args) \<and> \<not> skip_missing args"
proof (cases dataset)
  case None
  with assms show ?thesis by (simp add: main_def)
next
  case (Some records)
  show ?thesis
  proof (cases "path_exists (repo_root args)")
    case False
    with Some assms show ?thesis by (simp add: main_def)
  next
    case True
    from assms Some main_spec [where path_exists = path_exists and args = args and records = records, OF True] have "\<not> skip_missing args"
      by (auto simp: Let_def split: if_splits)
    with Some True show ?thesis by simp
  qed
qed

lemma scan_records_skip_no_repo:
  assumes "br_repo r = None \<or> br_repo r = Some []"
  shows "scan_records args path_exists (r # rest) st = scan_records args path_exists rest st"
  using assms by (auto split: option.splits)

lemma scan_records_drop_no_repo:
  assumes "br_repo r = None \<or> br_repo r = Some []"
  shows "scan_records args path_exists (before @ r # rest) st
           = scan_records args path_exists (before @ rest) st"
proof (induction before arbitrary: st)
  case Nil
  from assms show ?case
    by (simp only: append_Nil scan_records_skip_no_repo)
next
  case (Cons x before)
  show ?case
    by (simp add: Cons.IH Let_def split: option.splits)
qed

text \<open>
  C7, as the code has it. With \<^verbatim>\<open>--skip-missing\<close> not set, a missing repository never
  stops the loop; the loop reads the records up to the end of the dataset, or up to the
  record whose instance reaches the emission limit (all the records when there is no
  limit). After the loop the run exits with code 3 exactly when one of the records read
  is eligible and has no repository, and it reports their number and the first ten slugs.
  With \<^verbatim>\<open>--skip-missing\<close> set, the exit code is 0 and the output holds the instances of
  the records read whose repository is present.
\<close>

theorem missing_repositories_fail_after_scan:
  assumes "path_exists (repo_root args)"
  shows "(\<not> skip_missing args \<longrightarrow>
            (let ms = map slug (filter (repo_missing args path_exists)
                                  (scanned args path_exists 0 records))
             in if ms \<noteq> []
                then exit_code (main args path_exists (Some records)) = 3
                     \<and> messages (main args path_exists (Some records))
                         = [Missing (length ms) (take 10 ms)]
                else exit_code (main args path_exists (Some records)) = 0))
       \<and> (limit args = None \<or> limit args = Some 0
            \<longrightarrow> scanned args path_exists 0 records = records)
       \<and> (skip_missing args \<longrightarrow>
            exit_code (main args path_exists (Some records)) = 0
            \<and> output_file (main args path_exists (Some records))
                = Some (map (instance_of args) (filter (repo_present args path_exists)
                          (scanned args path_exists 0 records))))"
proof (intro conjI impI)
  assume "\<not> skip_missing args"
  then show "let ms = map slug (filter (repo_missing args path_exists)
                                  (scanned args path_exists 0 records))
             in if ms \<noteq> []
                then exit_code (main args path_exists (Some records)) = 3
                     \<and> messages (main args path_exists (Some records))
                         = [Missing (length ms) (take 10 ms)]
                else exit_code (main args path_exists (Some records)) = 0"
    by (simp add: main_spec [where path_exists = path_exists and args = args, OF assms] Let_def)
next
  assume "limit args = None \<or> limit args = Some 0"
  then show "scanned args path_exists 0 records = records"
    by (rule scanned_no_limit)
next
  assume "skip_missing args"
  then show "exit_code (main args path_exists (Some records)) = 0"
    and "output_file (main args path_exists (Some records))
                = Some (map (instance_of args) (filter (repo_present args path_exists)
                          (scanned args path_exists 0 records)))"
    by (simp_all add: main_spec [where path_exists = path_exists and args = args, OF assms] Let_def)
qed

text \<open>
  The theorem at a dataset of three records, the second without its repository: exit
  code 3 and one slug reported; with \<^verbatim>\<open>--skip-missing\<close>, exit code 0 and two instances.
\<close>

theorem missing_repositories_fail_after_scan_witness:
  "exit_code (main example_args example_exists (Some [rec_ok, rec_gone, rec_more])) = 3
   \<and> messages (main example_args example_exists (Some [rec_ok, rec_gone, rec_more]))
       = [Missing 1 [''org/gone'']]
   \<and> exit_code (main (example_args\<lparr>skip_missing := True\<rparr>) example_exists
                  (Some [rec_ok, rec_gone, rec_more])) = 0
   \<and> output_file (main (example_args\<lparr>skip_missing := True\<rparr>) example_exists
                    (Some [rec_ok, rec_gone, rec_more]))
       = Some [instance_of example_args rec_ok, instance_of example_args rec_more]"
proof -
  let ?recs = "[rec_ok, rec_gone, rec_more]"
  let ?skip = "example_args\<lparr>skip_missing := True\<rparr>"
  have pe: "example_exists (repo_root example_args)"
    by code_simp
  have pe': "example_exists (repo_root ?skip)"
    by code_simp
  note t = missing_repositories_fail_after_scan
           [where path_exists = example_exists and args = example_args and records = ?recs, OF pe]
  note t' = missing_repositories_fail_after_scan
           [where path_exists = example_exists and args = ?skip and records = ?recs, OF pe']
  have ns: "\<not> skip_missing example_args"
    by code_simp
  have sk: "skip_missing ?skip"
    by code_simp
  have ms: "map slug (filter (repo_missing example_args example_exists)
                        (scanned example_args example_exists 0 ?recs)) = [''org/gone'']"
    by code_simp
  have out: "map (instance_of ?skip) (filter (repo_present ?skip example_exists)
                        (scanned ?skip example_exists 0 ?recs))
             = [instance_of example_args rec_ok, instance_of example_args rec_more]"
    by code_simp
  from t have "\<not> skip_missing example_args \<longrightarrow>
            (let ms = map slug (filter (repo_missing example_args example_exists)
                                  (scanned example_args example_exists 0 ?recs))
             in if ms \<noteq> []
                then exit_code (main example_args example_exists (Some ?recs)) = 3
                     \<and> messages (main example_args example_exists (Some ?recs))
                         = [Missing (length ms) (take 10 ms)]
                else exit_code (main example_args example_exists (Some ?recs)) = 0)"
    by (rule conjunct1)
  with ns have "exit_code (main example_args example_exists (Some ?recs)) = 3
     \<and> messages (main example_args example_exists (Some ?recs)) = [Missing 1 [''org/gone'']]"
    unfolding Let_def ms by simp
  moreover from t' [THEN conjunct2, THEN conjunct2] have "skip_missing ?skip \<longrightarrow>
            exit_code (main ?skip example_exists (Some ?recs)) = 0
            \<and> output_file (main ?skip example_exists (Some ?recs))
                = Some (map (instance_of ?skip) (filter (repo_present ?skip example_exists)
                          (scanned ?skip example_exists 0 ?recs)))"
    .
  with sk have "exit_code (main ?skip example_exists (Some ?recs)) = 0
     \<and> output_file (main ?skip example_exists (Some ?recs))
         = Some [instance_of example_args rec_ok, instance_of example_args rec_more]"
    unfolding out by simp
  ultimately show ?thesis
    by simp
qed

text \<open>
  C7 as stated fails under an emission limit: with \<^verbatim>\<open>--limit 1\<close> the loop stops after the
  first instance, the second record (eligible, its repository missing) is never read, and
  the run exits with code 0.
\<close>

theorem limit_hides_missing_counterexample:
  "example_exists (repo_root (example_args\<lparr>limit := Some 1\<rparr>))
   \<and> \<not> skip_missing (example_args\<lparr>limit := Some 1\<rparr>)
   \<and> repo_missing (example_args\<lparr>limit := Some 1\<rparr>) example_exists rec_gone
   \<and> \<not> example_exists (build_repo_path ''repos'' ''org/gone'')
   \<and> exit_code (main (example_args\<lparr>limit := Some 1\<rparr>) example_exists
                  (Some [rec_ok, rec_gone])) = 0
   \<and> scanned (example_args\<lparr>limit := Some 1\<rparr>) example_exists 0 [rec_ok, rec_gone] = [rec_ok]"
  by code_simp

text \<open>
  C9, as the code has it. When the run exits with code 3, the output file has been
  written and holds, in order, one instance for every record the loop read that is
  eligible and whose repository is present. The records read are a prefix of the dataset,
  the whole dataset when there is no emission limit.
\<close>

theorem output_kept_on_failure:
  assumes "exit_code (main args path_exists dataset) = 3"
  shows "\<exists>records. dataset = Some records
           \<and> output_file (main args path_exists dataset)
               = Some (map (instance_of args) (filter (repo_present args path_exists)
                         (scanned args path_exists 0 records)))
           \<and> (\<exists>k. scanned args path_exists 0 records = take k records)
           \<and> (limit args = None \<or> limit args = Some 0
                 \<longrightarrow> scanned args path_exists 0 records = records)"
proof -
  from main_exit_3 [OF assms] obtain records where
    r: "dataset = Some records" "path_exists (repo_root args)"
    by blast
  have "output_file (main args path_exists (Some records))
               = Some (map (instance_of args) (filter (repo_present args path_exists)
                         (scanned args path_exists 0 records)))"
    by (simp add: main_spec [where path_exists = path_exists and args = args, OF r(2)] Let_def)
  moreover have "\<exists>k. scanned args path_exists 0 records = take k records"
    by (rule scanned_prefix)
  moreover have "limit args = None \<or> limit args = Some 0
                 \<longrightarrow> scanned args path_exists 0 records = records"
    using scanned_no_limit by blast
  ultimately show ?thesis
    using r(1) by blast
qed

text \<open>The theorem at the dataset of three records: exit code 3, two instances written.\<close>

theorem output_kept_on_failure_witness:
  "exit_code (main example_args example_exists (Some [rec_ok, rec_gone, rec_more])) = 3
   \<and> output_file (main example_args example_exists (Some [rec_ok, rec_gone, rec_more]))
       = Some [instance_of example_args rec_ok, instance_of example_args rec_more]"
proof -
  let ?recs = "[rec_ok, rec_gone, rec_more]"
  have e: "exit_code (main example_args example_exists (Some ?recs)) = 3"
    by code_simp
  from output_kept_on_failure [OF e] obtain records where
    r: "Some ?recs = Some records"
       "output_file (main example_args example_exists (Some ?recs))
          = Some (map (instance_of example_args) (filter (repo_present example_args example_exists)
                    (scanned example_args example_exists 0 records)))"
    by blast
  have out: "map (instance_of example_args) (filter (repo_present example_args example_exists)
                        (scanned example_args example_exists 0 ?recs))
             = [instance_of example_args rec_ok, instance_of example_args rec_more]"
    by code_simp
  from r(1) have "records = ?recs"
    by simp
  with r(2) have "output_file (main example_args example_exists (Some ?recs))
          = Some (map (instance_of example_args) (filter (repo_present example_args example_exists)
                    (scanned example_args example_exists 0 ?recs)))"
    by (simp only:)
  then have "output_file (main example_args example_exists (Some ?recs))
          = Some [instance_of example_args rec_ok, instance_of example_args rec_more]"
    unfolding out .
  with e show ?thesis
    by (rule conjI)
qed

text \<open>
  C9 as stated fails under an emission limit: with \<^verbatim>\<open>--limit 1\<close> the run over a record
  without repository and two records with one exits with code 3 and has written the
  instance of the first of the two only.
\<close>

theorem limit_cuts_output_counterexample:
  "exit_code (main (example_args\<lparr>limit := Some 1\<rparr>) example_exists
                (Some [rec_gone, rec_ok, rec_more])) = 3
   \<and> output_file (main (example_args\<lparr>limit := Some 1\<rparr>) example_exists
                    (Some [rec_gone, rec_ok, rec_more]))
       = Some [instance_of (example_args\<lparr>limit := Some 1\<rparr>) rec_ok]
   \<and> repo_present (example_args\<lparr>limit := Some 1\<rparr>) example_exists rec_more
   \<and> instance_of (example_args\<lparr>limit := Some 1\<rparr>) rec_more
       \<noteq> instance_of (example_args\<lparr>limit := Some 1\<rparr>) rec_ok"
  by code_simp

text \<open>
  C10. A record whose \<^verbatim>\<open>repo\<close> is absent or empty is skipped, whatever its
  \<^verbatim>\<open>instance_id\<close>: the run over a dataset that contains it gives the same exit code, the
  same output file and the same messages as the run over the dataset without it.
\<close>

theorem record_without_repo_skipped:
  assumes "br_repo r = None \<or> br_repo r = Some []"
  shows "main args path_exists (Some (before @ r # rest))
           = main args path_exists (Some (before @ rest))"
  by (simp add: main_def scan_records_drop_no_repo [OF assms])

text \<open>The theorem at a record with an \<^verbatim>\<open>instance_id\<close> and no \<^verbatim>\<open>repo\<close>.\<close>

theorem record_without_repo_skipped_witness:
  "br_instance_id rec_norepo = Some ''x4''
   \<and> br_repo rec_norepo = None
   \<and> main example_args example_exists (Some ([rec_gone] @ rec_norepo # [rec_ok]))
       = main example_args example_exists (Some ([rec_gone] @ [rec_ok]))
   \<and> exit_code (main example_args example_exists (Some ([rec_gone] @ rec_norepo # [rec_ok]))) = 3
   \<and> output_file (main example_args example_exists (Some ([rec_gone] @ rec_norepo # [rec_ok])))
       = Some [instance_of example_args rec_ok]"
proof -
  have h: "br_repo rec_norepo = None \<or> br_repo rec_norepo = Some []"
    by code_simp
  have "br_instance_id rec_norepo = Some ''x4''" "br_repo rec_norepo = None"
    by code_simp+
  moreover have "exit_code (main example_args example_exists (Some ([rec_gone] @ [rec_ok]))) = 3
     \<and> output_file (main example_args example_exists (Some ([rec_gone] @ [rec_ok])))
         = Some [instance_of example_args rec_ok]"
    by code_simp
  ultimately show ?thesis
    using record_without_repo_skipped [OF h, of example_args example_exists "[rec_gone]" "[rec_ok]"]
    by simp
qed

end
